theory Spec2Isabelle
  imports Main
begin

section \<open>JavaScript values\<close>

text \<open>
  The values the engine handles. An object is its address (its identity, which
  \<open>===\<close> compares) together with its own enumerable properties in the order
  \<open>Object.keys\<close> lists them. The engine never writes to an object after the
  statement that builds it, so a value carries the properties it has; allocation
  is explicit (a counter of the next free address). A function value is a
  reference \<open>VFun f\<close>; what calling it does is given by an environment.
  Numbers are the integers (no NaN, no fractions); property keys are strings that
  are not array indices; properties inherited from a prototype are not modelled.
\<close>

type_synonym addr = nat

datatype val =
    VUndefined
  | VNull
  | VBool bool
  | VNum int
  | VStr string
  | VFun nat
  | VObj addr "(string \<times> val) list"

text \<open>\<open>new Error(message)\<close>, and the TypeError of the language itself.\<close>

datatype exn = Error string | TypeError

fun typeof :: "val \<Rightarrow> string" where
  "typeof VUndefined = ''undefined''"
| "typeof VNull = ''object''"
| "typeof (VBool b) = ''boolean''"
| "typeof (VNum n) = ''number''"
| "typeof (VStr s) = ''string''"
| "typeof (VFun f) = ''function''"
| "typeof (VObj a fs) = ''object''"

text \<open>ToBoolean: what \<open>!action\<close> negates.\<close>

fun truthy :: "val \<Rightarrow> bool" where
  "truthy VUndefined = False"
| "truthy VNull = False"
| "truthy (VBool b) = b"
| "truthy (VNum n) = (n \<noteq> 0)"
| "truthy (VStr s) = (s \<noteq> [])"
| "truthy (VFun f) = True"
| "truthy (VObj a fs) = True"

text \<open>\<open>v[k]\<close>: a TypeError on null and undefined, the own property or undefined otherwise.\<close>

fun get_prop :: "val \<Rightarrow> string \<Rightarrow> exn + val" where
  "get_prop VUndefined k = Inl TypeError"
| "get_prop VNull k = Inl TypeError"
| "get_prop (VObj a fs) k = Inr (case map_of fs k of None \<Rightarrow> VUndefined | Some v \<Rightarrow> v)"
| "get_prop v k = Inr VUndefined"

text \<open>\<open>o[k] = v\<close> on a property list: an existing key keeps its place, a new one goes last.\<close>

fun set_prop :: "string \<Rightarrow> 'v \<Rightarrow> (string \<times> 'v) list \<Rightarrow> (string \<times> 'v) list" where
  "set_prop k v [] = [(k, v)]"
| "set_prop k v ((k', v') # fs) = (if k' = k then (k, v) # fs else (k', v') # set_prop k v fs)"

text \<open>The own enumerable properties \<open>Object.assign\<close> and \<open>Object.keys\<close> read.\<close>

fun own_props :: "val \<Rightarrow> (string \<times> val) list" where
  "own_props (VObj a fs) = fs"
| "own_props v = []"

definition Object_assign :: "(string \<times> val) list \<Rightarrow> val \<Rightarrow> (string \<times> val) list" where
  "Object_assign target source = foldl (\<lambda>t (k, v). set_prop k v t) target (own_props source)"

definition Object_keys :: "(string \<times> val) list \<Rightarrow> string list" where
  "Object_keys fs = map fst fs"

text \<open>\<open>===\<close>: objects and functions by identity, primitives by value.\<close>

fun strict_eq :: "val \<Rightarrow> val \<Rightarrow> bool" where
  "strict_eq VUndefined VUndefined = True"
| "strict_eq VNull VNull = True"
| "strict_eq (VBool a) (VBool b) = (a = b)"
| "strict_eq (VNum a) (VNum b) = (a = b)"
| "strict_eq (VStr a) (VStr b) = (a = b)"
| "strict_eq (VFun a) (VFun b) = (a = b)"
| "strict_eq (VObj a fa) (VObj b fb) = (a = b)"
| "strict_eq x y = False"

text \<open>
  \<open>==\<close> (IsLooselyEqual). A boolean operand is first turned into a number.
  Two conversions are the language's and are taken as parameters:
  \<open>stringToNumber\<close> (None when the string is not the numeral of an integer) and
  \<open>objEqPrim o p\<close>, the outcome of comparing ToPrimitive of the object \<open>o\<close> with
  the number or string \<open>p\<close>.
\<close>

record coercions =
  stringToNumber :: "string \<Rightarrow> int option"
  objEqPrim :: "val \<Rightarrow> val \<Rightarrow> bool"

fun boolToNumber :: "val \<Rightarrow> val" where
  "boolToNumber (VBool b) = VNum (if b then 1 else 0)"
| "boolToNumber v = v"

fun loose_eq_nb :: "coercions \<Rightarrow> val \<Rightarrow> val \<Rightarrow> bool" where
  "loose_eq_nb J VUndefined VUndefined = True"
| "loose_eq_nb J VUndefined VNull = True"
| "loose_eq_nb J VNull VUndefined = True"
| "loose_eq_nb J VNull VNull = True"
| "loose_eq_nb J VUndefined y = False"
| "loose_eq_nb J VNull y = False"
| "loose_eq_nb J x VUndefined = False"
| "loose_eq_nb J x VNull = False"
| "loose_eq_nb J (VNum a) (VNum b) = (a = b)"
| "loose_eq_nb J (VStr a) (VStr b) = (a = b)"
| "loose_eq_nb J (VNum a) (VStr b) = (stringToNumber J b = Some a)"
| "loose_eq_nb J (VStr a) (VNum b) = (stringToNumber J a = Some b)"
| "loose_eq_nb J (VFun a) (VFun b) = (a = b)"
| "loose_eq_nb J (VObj a fa) (VObj b fb) = (a = b)"
| "loose_eq_nb J (VFun a) (VObj b fb) = False"
| "loose_eq_nb J (VObj a fa) (VFun b) = False"
| "loose_eq_nb J (VFun a) y = objEqPrim J (VFun a) y"
| "loose_eq_nb J (VObj a fa) y = objEqPrim J (VObj a fa) y"
| "loose_eq_nb J x (VFun b) = objEqPrim J (VFun b) x"
| "loose_eq_nb J x (VObj b fb) = objEqPrim J (VObj b fb) x"
| "loose_eq_nb J x y = False"

definition loose_eq :: "coercions \<Rightarrow> val \<Rightarrow> val \<Rightarrow> bool" where
  "loose_eq J x y = loose_eq_nb J (boolToNumber x) (boolToNumber y)"

section \<open>The function compositor\<close>

text \<open>
  \<open>compose(...funcs)\<close>: the identity for no function, the function itself for one,
  and otherwise \<open>funcs.reduce((a, b) => (...args) => a(b(...args)))\<close>, a left fold
  that starts from the first function.
\<close>

fun compose :: "('a \<Rightarrow> 'a) list \<Rightarrow> 'a \<Rightarrow> 'a" where
  "compose [] = (\<lambda>args. args)"
| "compose [f] = f"
| "compose (f # g # fs) = foldl (\<lambda>a b. (\<lambda>args. a (b args))) f (g # fs)"

section \<open>The store engine\<close>

text \<open>
  The variables \<open>createStore\<close> closes over. \<open>currentListeners\<close> and
  \<open>nextListeners\<close> hold references to arrays, so the arrays live in a heap
  (\<open>arrays\<close>, an address is an index) and \<open>===\<close> on them compares addresses.
  Each call of \<open>subscribe\<close> creates a closure with its own \<open>listener\<close> and
  \<open>isSubscribed\<close>: \<open>closures\<close> holds these pairs, and the closure
  \<open>unsubscribe\<close> that the call returns is named by its index.
  \<open>heapTop\<close> is the next free object address. \<open>trace\<close> records what cannot
  be read off the variables: each call of a listener, and each \<open>console.log\<close>.
\<close>

datatype event = ListenerCalled val | ConsoleLog "val list"

record store =
  currentState :: val
  reducer :: val
  arrays :: "val list list"
  currentListeners :: addr
  nextListeners :: addr
  closures :: "(val \<times> bool) list"
  heapTop :: addr
  trace :: "event list"

text \<open>
  The callers' functions. \<open>call E f args n\<close> is the call \<open>f(...args)\<close> of a
  function that reads its arguments and may allocate (\<open>n\<close> is the next free
  address, returned advanced) or throw: reducers and action creators. A listener
  takes no argument and acts on the store through its interface: its body
  \<open>body E f\<close> is the sequence of calls it makes.
\<close>

datatype cmd =
    CallDispatch val
  | CallSubscribe val
  | CallUnsubscribe nat
  | CallThrow exn

record env =
  call :: "nat \<Rightarrow> val list \<Rightarrow> addr \<Rightarrow> (exn + val) \<times> addr"
  body :: "nat \<Rightarrow> cmd list"
  coerce :: coercions

fun apply_fn :: "env \<Rightarrow> val \<Rightarrow> val list \<Rightarrow> addr \<Rightarrow> (exn + val) \<times> addr" where
  "apply_fn E (VFun f) args n = call E f args n"
| "apply_fn E v args n = (Inl TypeError, n)"

text \<open>\<open>xs.indexOf(v)\<close>: the first index whose element is \<open>=== v\<close>, or -1.\<close>

fun indexOf :: "val list \<Rightarrow> val \<Rightarrow> int" where
  "indexOf [] v = - 1"
| "indexOf (x # xs) v =
     (if strict_eq x v then 0
      else (let i = indexOf xs v in if i < 0 then - 1 else i + 1))"

text \<open>
  \<open>xs.splice(start, deleteCount)\<close>, the array it leaves: a negative start counts
  from the end, and the count is clipped to what is there.
\<close>

definition splice :: "int \<Rightarrow> int \<Rightarrow> 'a list \<Rightarrow> 'a list" where
  "splice start deleteCount xs =
     (let len = int (length xs);
          relativeStart = (if start < 0 then max (len + start) 0 else min start len);
          actualDeleteCount = min (max deleteCount 0) (len - relativeStart)
      in take (nat relativeStart) xs @ drop (nat (relativeStart + actualDeleteCount)) xs)"

definition ensureCanMutateNextListeners :: "store \<Rightarrow> store" where
  "ensureCanMutateNextListeners s =
     (if nextListeners s = currentListeners s
      then s\<lparr>arrays := arrays s @ [arrays s ! currentListeners s],
             nextListeners := length (arrays s)\<rparr>
      else s)"

definition getState :: "store \<Rightarrow> val" where
  "getState s = currentState s"

text \<open>\<open>subscribe(listener)\<close> returns the new closure \<open>unsubscribe\<close> (its index).\<close>

definition subscribe :: "val \<Rightarrow> store \<Rightarrow> (exn + nat) \<times> store" where
  "subscribe listener s =
     (if typeof listener \<noteq> ''function''
      then (Inl (Error ''Expected the listener to be a function.''), s)
      else
        (let s1 = s\<lparr>closures := closures s @ [(listener, True)]\<rparr>;
             s2 = ensureCanMutateNextListeners s1;
             s3 = s2\<lparr>arrays := (arrays s2)[nextListeners s2 :=
                        arrays s2 ! nextListeners s2 @ [listener]]\<rparr>
         in (Inr (length (closures s)), s3)))"

text \<open>Calling the closure \<open>unsubscribe\<close> number \<open>k\<close>.\<close>

definition unsubscribe :: "nat \<Rightarrow> store \<Rightarrow> store" where
  "unsubscribe k s =
     (if k < length (closures s) then
        (let listener = fst (closures s ! k); isSubscribed = snd (closures s ! k) in
         if isSubscribed then
           (let s1 = s\<lparr>closures := (closures s)[k := (listener, False)]\<rparr>;
                s2 = ensureCanMutateNextListeners s1;
                index = indexOf (arrays s2 ! nextListeners s2) listener
            in s2\<lparr>arrays := (arrays s2)[nextListeners s2 :=
                        splice index 1 (arrays s2 ! nextListeners s2)]\<rparr>)
         else s)
      else s)"

text \<open>
  \<open>dispatch(action)\<close>. A listener may call \<open>dispatch\<close> again, so the recursion
  is bounded by fuel: each call of a listener uses one unit, and None is a run
  that needs more. \<open>notify fuel E listeners i s\<close> is the loop
  \<open>for (; i < listeners.length; i++) listeners[i]()\<close> over the array at the
  address \<open>listeners\<close>, read from the heap at every step; \<open>run_body\<close> runs a
  listener's calls.
\<close>

type_synonym 'a outcome = "((exn + 'a) \<times> store) option"

fun dispatch :: "nat \<Rightarrow> env \<Rightarrow> val \<Rightarrow> store \<Rightarrow> val outcome"
and notify :: "nat \<Rightarrow> env \<Rightarrow> addr \<Rightarrow> nat \<Rightarrow> store \<Rightarrow> unit outcome"
and run_body :: "nat \<Rightarrow> env \<Rightarrow> cmd list \<Rightarrow> store \<Rightarrow> unit outcome"
where
  \<open>dispatch fuel E action s =
     (if \<not> truthy action \<or> typeof action \<noteq> ''object''
      then Some (Inl (Error ''Expected the action to be a object.''), s)
      else
        (case get_prop action ''type'' of
           Inl e \<Rightarrow> Some (Inl e, s)
         | Inr t \<Rightarrow>
             if typeof t = ''undefined''
             then Some (Inl (Error ''Actions may not have "type" property.''), s)
             else
               (case apply_fn E (reducer s) [currentState s, action] (heapTop s) of
                  (Inl e, n) \<Rightarrow> Some (Inl e, s\<lparr>heapTop := n\<rparr>)
                | (Inr v, n) \<Rightarrow>
                    (case notify fuel E (nextListeners s) 0
                            (s\<lparr>currentState := v, heapTop := n,
                               currentListeners := nextListeners s\<rparr>) of
                       None \<Rightarrow> None
                     | Some (Inl e, s') \<Rightarrow> Some (Inl e, s')
                     | Some (Inr u, s') \<Rightarrow> Some (Inr action, s')))))\<close>
| "notify 0 E listeners i s =
     (if i < length (arrays s ! listeners) then None else Some (Inr (), s))"
| "notify (Suc fuel) E listeners i s =
     (if i < length (arrays s ! listeners) then
        (let listener = arrays s ! listeners ! i;
             s1 = s\<lparr>trace := trace s @ [ListenerCalled listener]\<rparr> in
         case (case listener of
                 VFun f \<Rightarrow> run_body fuel E (body E f) s1
               | _ \<Rightarrow> Some (Inl TypeError, s1)) of
           None \<Rightarrow> None
         | Some (Inl e, s') \<Rightarrow> Some (Inl e, s')
         | Some (Inr u, s') \<Rightarrow> notify fuel E listeners (i + 1) s')
      else Some (Inr (), s))"
| "run_body fuel E [] s = Some (Inr (), s)"
| "run_body fuel E (c # cs) s =
     (case c of
        CallDispatch a \<Rightarrow>
          (case dispatch fuel E a s of
             None \<Rightarrow> None
           | Some (Inl e, s') \<Rightarrow> Some (Inl e, s')
           | Some (Inr r, s') \<Rightarrow> run_body fuel E cs s')
      | CallSubscribe l \<Rightarrow>
          (case subscribe l s of
             (Inl e, s') \<Rightarrow> Some (Inl e, s')
           | (Inr k, s') \<Rightarrow> run_body fuel E cs s')
      | CallUnsubscribe k \<Rightarrow> run_body fuel E cs (unsubscribe k s)
      | CallThrow e \<Rightarrow> Some (Inl e, s))"

text \<open>
  \<open>replaceReducer(newReducer)\<close>; the object literal \<open>{type: '@@redux_init'}\<close>
  is allocated when the call evaluates its argument.
\<close>

definition replaceReducer :: "nat \<Rightarrow> env \<Rightarrow> val \<Rightarrow> store \<Rightarrow> unit outcome" where
  "replaceReducer fuel E newReducer s =
     (if typeof newReducer \<noteq> ''function''
      then Some (Inl (Error ''Expected the reducer to be a function.''), s)
      else
        (let s1 = s\<lparr>reducer := newReducer, heapTop := heapTop s + 1\<rparr> in
         case dispatch fuel E (VObj (heapTop s) [(''type'', VStr ''@@redux_init'')]) s1 of
           None \<Rightarrow> None
         | Some (Inl e, s') \<Rightarrow> Some (Inl e, s')
         | Some (Inr r, s') \<Rightarrow> Some (Inr (), s')))"

text \<open>
  The object \<open>{getState, dispatch, subscribe, replaceReducer}\<close> a store is to its
  callers: four functions over the variables they share.
\<close>

type_synonym dispatch_t = "val \<Rightarrow> store \<Rightarrow> val outcome"

record store_api =
  api_getState :: "store \<Rightarrow> val"
  api_dispatch :: dispatch_t
  api_subscribe :: "val \<Rightarrow> store \<Rightarrow> (exn + nat) \<times> store"
  api_replaceReducer :: "val \<Rightarrow> store \<Rightarrow> unit outcome"

definition store_of :: "nat \<Rightarrow> env \<Rightarrow> store_api" where
  "store_of fuel E =
     \<lparr>api_getState = getState, api_dispatch = dispatch fuel E,
      api_subscribe = subscribe, api_replaceReducer = replaceReducer fuel E\<rparr>"

text \<open>
  \<open>createStore(reducer, preloadedState = {}, enhancer)\<close>, called when the next
  free address is \<open>n\<close>; an argument that is not passed is \<open>VUndefined\<close>, which
  is when the default \<open>{}\<close> is built. It returns the store object and the
  variables it closes over, or throws. An enhancer is a function value
  \<open>VFun g\<close>; \<open>enhancers g\<close> is what it does with the \<open>createStore\<close> it is given.
  \<open>createStore_body\<close> is the function's text with the \<open>createStore\<close> it
  passes to the enhancer as \<open>self\<close>; \<open>createStore depth\<close> ties the knot for
  enhancers that call it back at most \<open>depth\<close> deep.
\<close>

type_synonym createStore_t = "val \<Rightarrow> val \<Rightarrow> val \<Rightarrow> addr \<Rightarrow> (exn + store_api \<times> store) option"

type_synonym enhancer_t = "createStore_t \<Rightarrow> createStore_t"

fun apply_enhancer :: "(nat \<Rightarrow> enhancer_t) \<Rightarrow> val \<Rightarrow> enhancer_t" where
  "apply_enhancer enhancers (VFun g) = enhancers g"
| "apply_enhancer enhancers v = (\<lambda>self reducer' preloadedState enhancer n. Some (Inl TypeError))"

definition createStore_body ::
  "createStore_t \<Rightarrow> nat \<Rightarrow> env \<Rightarrow> (nat \<Rightarrow> enhancer_t) \<Rightarrow> createStore_t" where
  "createStore_body self fuel E enhancers reducer' preloadedState0 enhancer0 n =
     (let preloadedState1 = (if preloadedState0 = VUndefined then VObj n [] else preloadedState0);
          n1 = (if preloadedState0 = VUndefined then n + 1 else n)
      in
      if typeof reducer' \<noteq> ''function''
      then Some (Inl (Error ''Expected the reducer to be a function.''))
      else
        (let swap = (typeof preloadedState1 = ''function'' \<and> typeof enhancer0 = ''undefined'');
             enhancer = (if swap then preloadedState1 else enhancer0);
             preloadedState = (if swap then VUndefined else preloadedState1)
         in
         if typeof enhancer \<noteq> ''undefined'' then
           (if typeof enhancer \<noteq> ''function''
            then Some (Inl (Error ''Expected the enhancer to be a function.''))
            else apply_enhancer enhancers enhancer self reducer' preloadedState VUndefined n1)
         else
           (let s0 = \<lparr>currentState = preloadedState, reducer = reducer', arrays = [[]],
                      currentListeners = 0, nextListeners = 0, closures = [],
                      heapTop = n1 + 1, trace = []\<rparr>
            in
            case dispatch fuel E (VObj n1 [(''type'', VStr ''@@redux_init'')]) s0 of
              None \<Rightarrow> None
            | Some (Inl e, s') \<Rightarrow> Some (Inl e)
            | Some (Inr r, s') \<Rightarrow> Some (Inr (store_of fuel E, s')))))"

primrec createStore :: "nat \<Rightarrow> nat \<Rightarrow> env \<Rightarrow> (nat \<Rightarrow> enhancer_t) \<Rightarrow> createStore_t" where
  "createStore 0 fuel E enhancers =
     createStore_body (\<lambda>reducer' preloadedState enhancer n. None) fuel E enhancers"
| "createStore (Suc depth) fuel E enhancers =
     createStore_body (createStore depth fuel E enhancers) fuel E enhancers"

section \<open>The middleware enhancer\<close>

text \<open>
  A middleware is a function of the object \<open>{getState, dispatch}\<close> that returns a
  function from the next dispatch to a dispatch.
\<close>

record middlewareAPI =
  mw_getState :: "store \<Rightarrow> val"
  mw_dispatch :: dispatch_t

type_synonym middleware = "middlewareAPI \<Rightarrow> dispatch_t \<Rightarrow> dispatch_t"

text \<open>
  The local variable \<open>dispatch\<close> of \<open>applyMiddleware\<close> once
  \<open>compose(...chain)(dispatch)\<close> is assigned to it. The \<open>dispatch\<close> of
  \<open>middlewareAPI\<close> reads that same variable when it is called, so the
  definition refers to itself: \<open>k\<close> bounds how deep a middleware may call back
  through \<open>middlewareAPI.dispatch\<close> (None is a run that needs more).
\<close>

primrec enhanced_dispatch :: "nat \<Rightarrow> middleware list \<Rightarrow> store_api \<Rightarrow> dispatch_t" where
  "enhanced_dispatch 0 middlewares store =
     compose
       (map (\<lambda>middleware. middleware
               \<lparr>mw_getState = api_getState store, mw_dispatch = (\<lambda>action s. None)\<rparr>)
            middlewares)
       (api_dispatch store)"
| "enhanced_dispatch (Suc k) middlewares store =
     compose
       (map (\<lambda>middleware. middleware
               \<lparr>mw_getState = api_getState store,
                mw_dispatch = (\<lambda>action. enhanced_dispatch k middlewares store action)\<rparr>)
            middlewares)
       (api_dispatch store)"

definition applyMiddleware :: "nat \<Rightarrow> middleware list \<Rightarrow> enhancer_t" where
  "applyMiddleware k middlewares createStore' =
     (\<lambda>reducer' preloadedState enhancer n.
        case createStore' reducer' preloadedState enhancer n of
          None \<Rightarrow> None
        | Some (Inl e) \<Rightarrow> Some (Inl e)
        | Some (Inr (store, s)) \<Rightarrow>
            Some (Inr (store\<lparr>api_dispatch := enhanced_dispatch k middlewares store\<rparr>, s)))"

text \<open>
  \<open>printStateMiddleware\<close> of \<open>index.js\<close>, the standard shape of a middleware:
  log, call the next dispatch, log, return what the next dispatch returned.
  \<open>loggingMiddleware\<close> is that text with the two messages as parameters.
\<close>

definition console_log :: "val list \<Rightarrow> store \<Rightarrow> store" where
  "console_log args s = s\<lparr>trace := trace s @ [ConsoleLog args]\<rparr>"

definition loggingMiddleware :: "string \<Rightarrow> string \<Rightarrow> middleware" where
  "loggingMiddleware before after middlewareAPI =
     (\<lambda>dispatch' action s.
        (let s1 = console_log [VStr before, mw_getState middlewareAPI s] s in
         case dispatch' action s1 of
           None \<Rightarrow> None
         | Some (Inl e, s2) \<Rightarrow> Some (Inl e, s2)
         | Some (Inr returnValue, s2) \<Rightarrow>
             Some (Inr returnValue,
                   console_log [VStr after, mw_getState middlewareAPI s2] s2)))"

definition printStateMiddleware :: middleware where
  "printStateMiddleware =
     loggingMiddleware ''state before dispatch'' ''state after dispatch''"

section \<open>The action-creator binder\<close>

type_synonym bound = "val list \<Rightarrow> store \<Rightarrow> val outcome"

definition bindActionCreator :: "env \<Rightarrow> val \<Rightarrow> dispatch_t \<Rightarrow> bound" where
  "bindActionCreator E actionCreator dispatch' =
     (\<lambda>args s.
        case apply_fn E actionCreator args (heapTop s) of
          (Inl e, n) \<Rightarrow> Some (Inl e, s\<lparr>heapTop := n\<rparr>)
        | (Inr action, n) \<Rightarrow> dispatch' action (s\<lparr>heapTop := n\<rparr>))"

text \<open>
  An array used as a property key is converted to a string: its elements joined
  by commas.
\<close>

fun array_toString :: "string list \<Rightarrow> string" where
  "array_toString [] = []"
| "array_toString [k] = k"
| "array_toString (k # k' # ks) = k @ '','' @ array_toString (k' # ks)"

text \<open>
  The loop of \<open>bindActionCreators\<close> over the remaining keys; \<open>keys\<close> is the
  whole array \<open>Object.keys(actionCreators)\<close>, which the assignment
  \<open>boundActionCreators[keys] = ...\<close> uses as the property key.
\<close>

fun bind_loop ::
  "env \<Rightarrow> dispatch_t \<Rightarrow> val \<Rightarrow> string list \<Rightarrow> string list \<Rightarrow>
   (string \<times> bound) list \<Rightarrow> exn + (string \<times> bound) list" where
  "bind_loop E dispatch' actionCreators keys [] boundActionCreators = Inr boundActionCreators"
| "bind_loop E dispatch' actionCreators keys (key # rest) boundActionCreators =
     (case get_prop actionCreators key of
        Inl e \<Rightarrow> Inl e
      | Inr actionCreator \<Rightarrow>
          bind_loop E dispatch' actionCreators keys rest
            (if typeof actionCreator = ''function''
             then set_prop (array_toString keys)
                    (bindActionCreator E actionCreator dispatch') boundActionCreators
             else boundActionCreators))"

datatype bound_result = BoundFunction bound | BoundObject "(string \<times> bound) list"

definition bindActionCreators :: "env \<Rightarrow> val \<Rightarrow> dispatch_t \<Rightarrow> exn + bound_result" where
  "bindActionCreators E actionCreators dispatch' =
     (if typeof actionCreators = ''function''
      then Inr (BoundFunction (bindActionCreator E actionCreators dispatch'))
      else if typeof actionCreators \<noteq> ''object'' \<or> strict_eq actionCreators VNull
      then Inl (Error ''actionCreator expected  an object or a function.'')
      else
        (let keys = Object_keys (own_props actionCreators) in
         case bind_loop E dispatch' actionCreators keys keys [] of
           Inl e \<Rightarrow> Inl e
         | Inr boundActionCreators \<Rightarrow> Inr (BoundObject boundActionCreators)))"

section \<open>The reducer combinator\<close>

text \<open>
  The loop of \<open>combination\<close> over the remaining keys, with the local variables
  \<open>nextState\<close> (the properties assigned so far) and \<open>hasChange\<close>.
\<close>

fun combination_loop ::
  "env \<Rightarrow> (string \<times> val) list \<Rightarrow> val \<Rightarrow> val \<Rightarrow> string list \<Rightarrow>
   (string \<times> val) list \<Rightarrow> bool \<Rightarrow> addr \<Rightarrow> (exn + (string \<times> val) list \<times> bool) \<times> addr" where
  "combination_loop E finalReducers state action [] nextState hasChange n =
     (Inr (nextState, hasChange), n)"
| "combination_loop E finalReducers state action (key # keys) nextState hasChange n =
     (case get_prop state key of
        Inl e \<Rightarrow> (Inl e, n)
      | Inr previousStateForKey \<Rightarrow>
          (let r = (case map_of finalReducers key of None \<Rightarrow> VUndefined | Some v \<Rightarrow> v) in
           if typeof r = ''function'' then
             (case apply_fn E r [previousStateForKey, action] n of
                (Inl e, n') \<Rightarrow> (Inl e, n')
              | (Inr nextStateForKey, n') \<Rightarrow>
                  combination_loop E finalReducers state action keys
                    (set_prop key nextStateForKey nextState)
                    (hasChange \<or> \<not> loose_eq (coerce E) nextStateForKey previousStateForKey)
                    n')
           else combination_loop E finalReducers state action keys nextState hasChange n))"

text \<open>
  \<open>combination(state = {}, action)\<close>, called when the next free address is
  \<open>n\<close>: the default \<open>{}\<close> is built when \<open>state\<close> is undefined, then
  \<open>nextState = {}\<close>.
\<close>

definition combination ::
  "env \<Rightarrow> (string \<times> val) list \<Rightarrow> string list \<Rightarrow> val \<Rightarrow> val \<Rightarrow> addr \<Rightarrow> (exn + val) \<times> addr" where
  "combination E finalReducers finalReducerKeys state0 action n =
     (let state = (if state0 = VUndefined then VObj n [] else state0);
          n1 = (if state0 = VUndefined then n + 1 else n)
      in
      case combination_loop E finalReducers state action finalReducerKeys [] False (n1 + 1) of
        (Inl e, n') \<Rightarrow> (Inl e, n')
      | (Inr (nextState, hasChange), n') \<Rightarrow>
          (Inr (if hasChange then VObj n1 nextState else state), n'))"

text \<open>
  \<open>combineReducers(reducers)\<close>: \<open>finalReducers\<close> is a copy of the own properties
  of \<open>reducers\<close> (its address is never compared, so only the properties are kept).
\<close>

definition combineReducers ::
  "env \<Rightarrow> val \<Rightarrow> val \<Rightarrow> val \<Rightarrow> addr \<Rightarrow> (exn + val) \<times> addr" where
  "combineReducers E reducers =
     (let finalReducers = Object_assign [] reducers;
          finalReducerKeys = Object_keys finalReducers
      in combination E finalReducers finalReducerKeys)"

section \<open>Callers and the predicates the theorems use\<close>

text \<open>
  An action that passes the two checks of \<open>dispatch\<close>: an object whose \<open>type\<close>
  is not undefined.
\<close>

fun is_action :: "val \<Rightarrow> bool" where
  "is_action (VObj a fs) =
     (case map_of fs ''type'' of None \<Rightarrow> False | Some t \<Rightarrow> typeof t \<noteq> ''undefined'')"
| "is_action v = False"

text \<open>A caller's statements \<open>dispatch(a1); dispatch(a2); ...\<close>, stopped by a throw.\<close>

fun dispatches :: "nat \<Rightarrow> env \<Rightarrow> val list \<Rightarrow> store \<Rightarrow> unit outcome" where
  "dispatches fuel E [] s = Some (Inr (), s)"
| "dispatches fuel E (a # as) s =
     (case dispatch fuel E a s of
        None \<Rightarrow> None
      | Some (Inl e, s') \<Rightarrow> Some (Inl e, s')
      | Some (Inr r, s') \<Rightarrow> dispatches fuel E as s')"

text \<open>
  A listener that only edits the registry: every call of its body subscribes a
  function or calls an \<open>unsubscribe\<close> closure.
\<close>

fun registry_call :: "cmd \<Rightarrow> bool" where
  "registry_call (CallSubscribe l) = (typeof l = ''function'')"
| "registry_call (CallUnsubscribe k) = True"
| "registry_call c = False"

fun registry_only :: "env \<Rightarrow> val \<Rightarrow> bool" where
  "registry_only E (VFun f) = list_all registry_call (body E f)"
| "registry_only E v = False"

text \<open>A listener that does nothing.\<close>

fun inert :: "env \<Rightarrow> val \<Rightarrow> bool" where
  "inert E (VFun f) = (body E f = [])"
| "inert E v = False"

text \<open>\<open>listening s ls\<close>: the registered listeners of the store are \<open>ls\<close>.\<close>

definition listening :: "store \<Rightarrow> val list \<Rightarrow> bool" where
  "listening s ls \<longleftrightarrow> nextListeners s < length (arrays s) \<and> arrays s ! nextListeners s = ls"

text \<open>
  \<open>snapshot l xs s\<close>: the array at address \<open>l\<close> holds \<open>xs\<close>, and
  \<open>nextListeners\<close> refers to it only while \<open>currentListeners\<close> does, so that
  \<open>ensureCanMutateNextListeners\<close> copies it before any write.
\<close>

definition snapshot :: "addr \<Rightarrow> val list \<Rightarrow> store \<Rightarrow> bool" where
  "snapshot l xs s \<longleftrightarrow>
     l < length (arrays s) \<and> arrays s ! l = xs \<and> nextListeners s < length (arrays s) \<and>
     (nextListeners s = l \<longrightarrow> currentListeners s = l)"

text \<open>
  \<open>later E s s'\<close>: the store gets from \<open>s\<close> to \<open>s'\<close> by calls of its four
  operations and of \<open>unsubscribe\<close> closures, in any number and order.
\<close>

inductive later :: "env \<Rightarrow> store \<Rightarrow> store \<Rightarrow> bool" for E :: env where
  later_now: "later E s s"
| later_subscribe: "later E s s1 \<Longrightarrow> subscribe l s1 = (r, s2) \<Longrightarrow> later E s s2"
| later_unsubscribe: "later E s s1 \<Longrightarrow> later E s (unsubscribe j s1)"
| later_dispatch: "later E s s1 \<Longrightarrow> dispatch fuel E a s1 = Some (r', s2) \<Longrightarrow> later E s s2"
| later_replaceReducer:
    "later E s s1 \<Longrightarrow> replaceReducer fuel E f s1 = Some (r'', s2) \<Longrightarrow> later E s s2"

text \<open>
  \<open>spent_le s s'\<close>: every closure of \<open>s\<close> is a closure of \<open>s'\<close>, and one whose
  \<open>isSubscribed\<close> is false in \<open>s\<close> still has it false in \<open>s'\<close>.
\<close>

definition spent_le :: "store \<Rightarrow> store \<Rightarrow> bool" where
  "spent_le s s' \<longleftrightarrow>
     length (closures s) \<le> length (closures s') \<and>
     (\<forall>j < length (closures s). \<not> snd (closures s ! j) \<longrightarrow> \<not> snd (closures s' ! j))"

subsection \<open>Concrete callers\<close>

text \<open>
  Function 0 is the reducer \<open>(state, action) => state\<close>, function 1 returns
  \<open>true\<close>, function 2 throws, every other function is an action creator that
  returns a new \<open>{type: 'SET'}\<close>. Listener 10 calls the \<open>unsubscribe\<close> closure
  number 2; every other listener does nothing. No example compares a string with
  a number, or an object with a primitive.
\<close>

definition example_coercions :: coercions where
  "example_coercions = \<lparr>stringToNumber = (\<lambda>s. None), objEqPrim = (\<lambda>x p. False)\<rparr>"

definition example_call :: "nat \<Rightarrow> val list \<Rightarrow> addr \<Rightarrow> (exn + val) \<times> addr" where
  "example_call f args n =
     (if f = 0 then (Inr (case args of [] \<Rightarrow> VUndefined | state # rest \<Rightarrow> state), n)
      else if f = 1 then (Inr (VBool True), n)
      else if f = 2 then (Inl (Error ''boom''), n)
      else (Inr (VObj n [(''type'', VStr ''SET'')]), n + 1))"

definition example_env :: env where
  "example_env =
     \<lparr>call = example_call,
      body = (\<lambda>f. if f = 10 then [CallUnsubscribe 2] else []),
      coerce = example_coercions\<rparr>"

text \<open>The variables of the store \<open>createStore(f0)\<close> builds at address 0.\<close>

definition example_store :: store where
  "example_store =
     \<lparr>currentState = VObj 0 [], reducer = VFun 0, arrays = [[]], currentListeners = 0,
      nextListeners = 0, closures = [], heapTop = 2, trace = []\<rparr>"

definition example_action :: val where
  "example_action = VObj 7 [(''type'', VStr ''INC'')]"

definition no_enhancers :: "nat \<Rightarrow> enhancer_t" where
  "no_enhancers g = (\<lambda>createStore'. createStore')"

definition example_middlewares :: "middleware list" where
  "example_middlewares =
     [loggingMiddleware ''before 1'' ''after 1'', loggingMiddleware ''before 2'' ''after 2'']"

definition example_enhancers :: "nat \<Rightarrow> enhancer_t" where
  "example_enhancers g = applyMiddleware 0 example_middlewares"

section \<open>Basic facts\<close>

declare dispatch.simps [simp del]

lemmas example_defs =
  example_env_def example_call_def example_store_def example_action_def example_coercions_def

lemma notify_done:
  "\<not> i < length (arrays s ! listeners) \<Longrightarrow> notify fuel E listeners i s = Some (Inr (), s)"
  by (cases fuel) simp_all

lemma dispatch_not_object:
  "\<not> truthy action \<or> typeof action \<noteq> ''object'' \<Longrightarrow>
   dispatch fuel E action s = Some (Inl (Error ''Expected the action to be a object.''), s)"
  by (simp add: dispatch.simps)

lemma dispatch_no_type:
  \<open>map_of fs ''type'' = None \<or> map_of fs ''type'' = Some VUndefined \<Longrightarrow>
   dispatch fuel E (VObj a fs) s =
     Some (Inl (Error ''Actions may not have "type" property.''), s)\<close>
  by (auto simp add: dispatch.simps)

lemma dispatch_action:
  "is_action action \<Longrightarrow>
   dispatch fuel E action s =
     (case apply_fn E (reducer s) [currentState s, action] (heapTop s) of
        (Inl e, n) \<Rightarrow> Some (Inl e, s\<lparr>heapTop := n\<rparr>)
      | (Inr v, n) \<Rightarrow>
          (case notify fuel E (nextListeners s) 0
                  (s\<lparr>currentState := v, heapTop := n, currentListeners := nextListeners s\<rparr>) of
             None \<Rightarrow> None
           | Some (Inl e, s') \<Rightarrow> Some (Inl e, s')
           | Some (Inr u, s') \<Rightarrow> Some (Inr action, s')))"
  by (cases action) (auto simp add: dispatch.simps split: option.splits)

section \<open>The function compositor: right-to-left composition\<close>

lemma foldl_compose:
  "foldl (\<lambda>a b. (\<lambda>args. a (b args))) f gs x = f (foldr (\<lambda>g y. g y) gs x)"
  by (induction gs arbitrary: f) simp_all

lemma compose_foldr: "compose fs x = foldr (\<lambda>g y. g y) fs x"
  by (cases fs rule: compose.cases) (simp_all add: foldl_compose)

text \<open>
  C8. \<open>compose()(x)\<close> is \<open>x\<close>, \<open>compose(f)(x)\<close> is \<open>f(x)\<close>, and
  \<open>compose(f, g, h)(x)\<close> is \<open>f(g(h(x)))\<close>: several functions, however many,
  compose from right to left.
\<close>

theorem compose_right_to_left:
  "compose [] x = x \<and> compose [f] x = f x \<and> compose [f, g, h] x = f (g (h x)) \<and>
   compose (f # fs) x = f (compose fs x)"
  by (simp add: compose_foldr)

section \<open>The store engine: validation and failure\<close>

text \<open>
  C2. Dispatching null, a value that is not an object, or an object with no
  \<open>type\<close> property throws an Error and leaves the store as it was: the state,
  the registry and the trace (no listener was called) are untouched, and the
  reducer, which could have allocated, was not called.
\<close>

theorem dispatch_rejects_malformed_action:
  assumes "action = VNull \<or> typeof action \<noteq> ''object'' \<or>
           (\<exists>a fs. action = VObj a fs \<and> map_of fs ''type'' = None)"
  shows "\<exists>m. dispatch fuel E action s = Some (Inl (Error m), s)"
  using assms dispatch_not_object[of action fuel E s] dispatch_no_type
  by (cases action) auto

theorem dispatch_rejects_malformed_action_witness:
  "(\<exists>m. dispatch 0 example_env VNull example_store = Some (Inl (Error m), example_store)) \<and>
   (\<exists>m. dispatch 0 example_env (VNum 5) example_store = Some (Inl (Error m), example_store)) \<and>
   (\<exists>m. dispatch 0 example_env (VObj 3 []) example_store = Some (Inl (Error m), example_store))"
proof -
  have h1: "VNull = VNull \<or> typeof VNull \<noteq> ''object'' \<or>
            (\<exists>a fs. VNull = VObj a fs \<and> map_of fs ''type'' = None)"
    by simp
  have h2: "VNum 5 = VNull \<or> typeof (VNum 5) \<noteq> ''object'' \<or>
            (\<exists>a fs. VNum 5 = VObj a fs \<and> map_of fs ''type'' = None)"
    by simp
  have h3: "VObj 3 [] = VNull \<or> typeof (VObj 3 []) \<noteq> ''object'' \<or>
            (\<exists>a fs. VObj 3 [] = VObj a fs \<and> map_of fs ''type'' = None)"
    by simp
  show ?thesis
    using dispatch_rejects_malformed_action[OF h1, of 0 example_env example_store]
      dispatch_rejects_malformed_action[OF h2, of 0 example_env example_store]
      dispatch_rejects_malformed_action[OF h3, of 0 example_env example_store]
    by simp
qed

text \<open>
  C10. When the reducer throws on the current state and a valid action,
  \<open>dispatch\<close> throws the same error; \<open>getState()\<close> still returns the state it
  returned before, no listener was called (the trace is the same) and the
  registry is the same. Only the allocation counter may have moved.
\<close>

theorem dispatch_reducer_throws:
  assumes "is_action action"
      and "apply_fn E (reducer s) [currentState s, action] (heapTop s) = (Inl e, n)"
  shows "dispatch fuel E action s = Some (Inl e, s\<lparr>heapTop := n\<rparr>) \<and>
         getState (s\<lparr>heapTop := n\<rparr>) = getState s \<and>
         trace (s\<lparr>heapTop := n\<rparr>) = trace s \<and>
         arrays (s\<lparr>heapTop := n\<rparr>) = arrays s \<and>
         currentListeners (s\<lparr>heapTop := n\<rparr>) = currentListeners s \<and>
         nextListeners (s\<lparr>heapTop := n\<rparr>) = nextListeners s"
  using assms by (simp add: dispatch_action getState_def)

theorem dispatch_reducer_throws_witness:
  "is_action example_action \<and>
   dispatch 0 example_env example_action (example_store\<lparr>reducer := VFun 2\<rparr>) =
     Some (Inl (Error ''boom''), example_store\<lparr>reducer := VFun 2, heapTop := 2\<rparr>) \<and>
   getState (example_store\<lparr>reducer := VFun 2, heapTop := 2\<rparr>) = VObj 0 []"
proof -
  have h1: "is_action example_action" by (simp add: example_action_def)
  have h2: "apply_fn example_env (reducer (example_store\<lparr>reducer := VFun 2\<rparr>))
              [currentState (example_store\<lparr>reducer := VFun 2\<rparr>), example_action]
              (heapTop (example_store\<lparr>reducer := VFun 2\<rparr>)) = (Inl (Error ''boom''), 2)"
    by (simp add: example_defs)
  from dispatch_reducer_throws[OF h1 h2, of 0] h1 show ?thesis
    by (simp add: getState_def example_store_def)
qed

section \<open>The store engine: construction\<close>

text \<open>
  C3, as the code has it. With no preloaded state and no enhancer, the
  parameter default \<open>preloadedState = {}\<close> makes the initial state a new empty
  object, and the bootstrap dispatch hands that object to the reducer:
  \<open>getState()\<close> of the new store is \<open>reducer({}, {type: '@@redux_init'})\<close>.
\<close>

theorem createStore_seeds_from_empty_object:
  assumes "call E f [VObj n [], VObj (n + 1) [(''type'', VStr ''@@redux_init'')]] (n + 2)
             = (Inr v, n')"
  shows "\<exists>api s. createStore depth fuel E enhancers (VFun f) VUndefined VUndefined n
                    = Some (Inr (api, s)) \<and> api_getState api s = v"
  using assms
  by (cases depth)
     (simp_all add: createStore_body_def Let_def dispatch_action notify_done store_of_def
        getState_def)

theorem createStore_seeds_from_empty_object_witness:
  "call example_env 0 [VObj 0 [], VObj (0 + 1) [(''type'', VStr ''@@redux_init'')]] (0 + 2)
     = (Inr (VObj 0 []), 2) \<and>
   (\<exists>api s. createStore 0 0 example_env no_enhancers (VFun 0) VUndefined VUndefined 0
               = Some (Inr (api, s)) \<and> api_getState api s = VObj 0 [])"
proof -
  have h: "call example_env 0 [VObj 0 [], VObj (0 + 1) [(''type'', VStr ''@@redux_init'')]] (0 + 2)
             = (Inr (VObj 0 []), 2)"
    by (simp add: example_defs)
  have c: "\<exists>api s. createStore 0 0 example_env no_enhancers (VFun 0) VUndefined VUndefined 0
               = Some (Inr (api, s)) \<and> api_getState api s = VObj 0 []"
    by (rule createStore_seeds_from_empty_object[OF h])
  from h c show ?thesis by (rule conjI)
qed

text \<open>
  C3 as stated fails. For the reducer \<open>(state, action) => state\<close>,
  \<open>createStore(reducer)\<close> yields a store whose state is the empty object at
  address 0, while \<open>reducer(undefined, {type: '@@redux_init'})\<close> is undefined.
\<close>

theorem createStore_not_seeded_from_undefined:
  "createStore 0 0 example_env no_enhancers (VFun 0) VUndefined VUndefined 0
     = Some (Inr (store_of 0 example_env, example_store))
   \<and> api_getState (store_of 0 example_env) example_store = VObj 0 []
   \<and> call example_env 0 [VUndefined, VObj 1 [(''type'', VStr ''@@redux_init'')]] 2
       = (Inr VUndefined, 2)
   \<and> VObj 0 [] \<noteq> VUndefined"
  by (simp add: createStore_body_def Let_def dispatch_action notify_done store_of_def getState_def
        example_defs)

section \<open>The action-creator binder\<close>

text \<open>
  C5 fails on the code. For a mapping with the two callable entries \<open>a\<close> and
  \<open>b\<close>, the assignment \<open>boundActionCreators[keys] = ...\<close> uses the array of
  all keys as the property key: the result has the single key \<open>a,b\<close>, bound
  to the last callable entry, and neither the key \<open>a\<close> nor the key \<open>b\<close>.
\<close>

theorem bindActionCreators_joins_keys:
  "bindActionCreators E (VObj a [(''a'', VFun f), (''b'', VFun g)]) d =
     Inr (BoundObject [(''a,b'', bindActionCreator E (VFun g) d)])"
  by (simp add: bindActionCreators_def Object_keys_def)

theorem bindActionCreators_joins_keys_witness:
  "bindActionCreators example_env (VObj 1 [(''a'', VFun 3), (''b'', VFun 4)])
     (dispatch 0 example_env) =
     Inr (BoundObject [(''a,b'', bindActionCreator example_env (VFun 4) (dispatch 0 example_env))])"
  by (rule bindActionCreators_joins_keys)

section \<open>The reducer combinator: what \<open>combination\<close> returns\<close>

text \<open>
  With two reducers that return, \<open>combination\<close> returns a new object holding
  their results when \<open>!=\<close> tells one of them from the previous value of its
  key, and the state object itself otherwise.
\<close>

lemma combination_two_reducers:
  assumes "a \<noteq> b"
      and "get_prop (VObj ad fs) a = Inr pa" and "get_prop (VObj ad fs) b = Inr pb"
      and "call E ra [pa, action] (n + 1) = (Inr va, n1)"
      and "call E rb [pb, action] n1 = (Inr vb, n2)"
  shows "combineReducers E (VObj r [(a, VFun ra), (b, VFun rb)]) (VObj ad fs) action n =
           (Inr (if \<not> loose_eq (coerce E) va pa \<or> \<not> loose_eq (coerce E) vb pb
                 then VObj n [(a, va), (b, vb)] else VObj ad fs), n2)"
  using assms
  by (auto simp add: combineReducers_def combination_def Object_assign_def Object_keys_def Let_def)

text \<open>
  C4 fails on the code. \<open>hasChange\<close> is computed with \<open>!=\<close>, which converts
  its operands: with \<open>state = {a: 1, b: 2}\<close>, a reducer for \<open>a\<close> that returns
  \<open>true\<close> and a reducer for \<open>b\<close> that returns its state, \<open>combination\<close>
  returns \<open>state\<close> itself, although \<open>true\<close> is not identical to \<open>1\<close>.
\<close>

theorem combination_keeps_stale_state:
  "combineReducers example_env (VObj 1 [(''a'', VFun 1), (''b'', VFun 0)])
      (VObj 2 [(''a'', VNum 1), (''b'', VNum 2)]) example_action 4
     = (Inr (VObj 2 [(''a'', VNum 1), (''b'', VNum 2)]), 5)
   \<and> call example_env 1 [VNum 1, example_action] 5 = (Inr (VBool True), 5)
   \<and> \<not> strict_eq (VBool True) (VNum 1)"
  by (simp add: combineReducers_def combination_def Object_assign_def Object_keys_def Let_def
        loose_eq_def example_defs)

section \<open>The listener registry\<close>

lemma subscribe_registry:
  assumes "nextListeners s < length (arrays s)"
  shows "\<exists>s'. subscribe (VFun l) s = (Inr (length (closures s)), s')
    \<and> nextListeners s' < length (arrays s')
    \<and> arrays s' ! nextListeners s' = arrays s ! nextListeners s @ [VFun l]
    \<and> closures s' = closures s @ [(VFun l, True)]
    \<and> currentState s' = currentState s \<and> reducer s' = reducer s
    \<and> heapTop s' = heapTop s \<and> trace s' = trace s"
  using assms
  by (simp add: subscribe_def ensureCanMutateNextListeners_def Let_def nth_append)

text \<open>The loop over a stretch of listeners that do nothing only records their calls.\<close>

lemma notify_inert:
  "\<forall>x \<in> set ys. inert E x \<Longrightarrow> arrays s ! l = pre @ ys @ post \<Longrightarrow>
   notify (length ys + fuel) E l (length pre) s =
     notify fuel E l (length pre + length ys) (s\<lparr>trace := trace s @ map ListenerCalled ys\<rparr>)"
proof (induction ys arbitrary: pre s)
  case Nil
  then show ?case by simp
next
  case (Cons y ys)
  from Cons.prems(1) obtain f where y: "y = VFun f" "body E f = []"
    by (cases y) simp_all
  let ?s1 = "s\<lparr>trace := trace s @ [ListenerCalled y]\<rparr>"
  have arr: "arrays ?s1 ! l = (pre @ [y]) @ ys @ post" using Cons.prems(2) by simp
  have all: "\<forall>x \<in> set ys. inert E x" using Cons.prems(1) by simp
  from Cons.IH[OF all arr] have
    "notify (length ys + fuel) E l (length pre + 1) ?s1 =
       notify fuel E l (length pre + 1 + length ys)
         (?s1\<lparr>trace := trace ?s1 @ map ListenerCalled ys\<rparr>)"
    by simp
  then show ?case
    using Cons.prems(2) y by (simp add: nth_append)
qed

lemma indexOf_range: "- 1 \<le> indexOf xs v"
  by (induction xs) (auto simp add: Let_def)

lemma indexOf_append:
  "\<forall>x \<in> set ys. \<not> strict_eq x v \<Longrightarrow>
   indexOf (ys @ zs) v = (if indexOf zs v < 0 then - 1 else int (length ys) + indexOf zs v)"
proof (induction ys)
  case Nil
  from indexOf_range[of zs v] show ?case by auto
next
  case (Cons y ys)
  then show ?case by (auto simp add: Let_def)
qed

lemma splice_second:
  "splice (int (length ys) + 1) 1 (ys @ [a, b, c]) = ys @ [a, c]"
proof -
  have a: "nat (int (length ys) + 1) - length ys = 1" by linarith
  have b: "nat (2 + int (length ys)) - length ys = 2" by linarith
  show ?thesis
    unfolding splice_def Let_def by (simp add: a b)
qed

lemma strict_eq_VFun: "strict_eq x (VFun f) \<longleftrightarrow> x = VFun f"
  by (cases x) auto

text \<open>
  The pass in which \<open>l1\<close> unsubscribes \<open>l2\<close>: the loop reads the array it
  captured, which the copy made by \<open>unsubscribe\<close> leaves alone.
\<close>

lemma first_pass:
  assumes "listening s (ls0 @ [VFun l1, VFun l2, VFun l3])"
      and "\<forall>x \<in> set ls0. inert E x" and "VFun l2 \<notin> set ls0"
      and "k2 < length (closures s)" "closures s ! k2 = (VFun l2, True)"
      and "body E l1 = [CallUnsubscribe k2]" "body E l2 = []" "body E l3 = []"
      and "is_action a"
      and "apply_fn E (reducer s) [currentState s, a] (heapTop s) = (Inr v, n)"
      and "length ls0 + 3 \<le> fuel"
  shows "\<exists>s'. dispatch fuel E a s = Some (Inr a, s')
     \<and> listening s' (ls0 @ [VFun l1, VFun l3])
     \<and> k2 < length (closures s') \<and> \<not> snd (closures s' ! k2)
     \<and> trace s' = trace s @ map ListenerCalled (ls0 @ [VFun l1, VFun l2, VFun l3])
     \<and> reducer s' = reducer s \<and> currentState s' = v"
proof -
  from assms(11) obtain f where fuel: "fuel = length ls0 + Suc (Suc (Suc f))"
    by (auto simp add: le_iff_add numeral_3_eq_3)
  have ne: "l1 \<noteq> l2" using assms(6,7) by auto
  let ?s1 = "s\<lparr>currentState := v, heapTop := n, currentListeners := nextListeners s\<rparr>"
  have arr: "arrays ?s1 ! nextListeners s = [] @ ls0 @ [VFun l1, VFun l2, VFun l3]"
    using assms(1) by (simp add: listening_def)
  have idx: "indexOf (ls0 @ [VFun l1, VFun l2, VFun l3]) (VFun l2) = int (length ls0) + 1"
    using assms(3) ne by (subst indexOf_append) (auto simp add: strict_eq_VFun)
  from notify_inert[OF assms(2) arr, of "Suc (Suc (Suc f))"]
  have skip: "notify fuel E (nextListeners s) 0 ?s1 =
      notify (Suc (Suc (Suc f))) E (nextListeners s) (length ls0)
        (?s1\<lparr>trace := trace ?s1 @ map ListenerCalled ls0\<rparr>)"
    by (simp add: fuel)
  show ?thesis
    using assms(1,4,5,9,10) ne
    by (simp add: dispatch_action skip listening_def assms(6-8) notify_done idx
        unsubscribe_def ensureCanMutateNextListeners_def Let_def splice_second nth_append)
qed

text \<open>A later pass: the closure is spent, so the call \<open>l1\<close> makes changes nothing.\<close>

lemma later_pass:
  assumes "listening s (ls0 @ [VFun l1, VFun l3])"
      and "\<forall>x \<in> set ls0. inert E x"
      and "k2 < length (closures s)" "\<not> snd (closures s ! k2)"
      and "body E l1 = [CallUnsubscribe k2]" "body E l3 = []"
      and "is_action a"
      and "apply_fn E (reducer s) [currentState s, a] (heapTop s) = (Inr v, n)"
      and "length ls0 + 2 \<le> fuel"
  shows "\<exists>s'. dispatch fuel E a s = Some (Inr a, s')
     \<and> listening s' (ls0 @ [VFun l1, VFun l3])
     \<and> k2 < length (closures s') \<and> \<not> snd (closures s' ! k2)
     \<and> trace s' = trace s @ map ListenerCalled (ls0 @ [VFun l1, VFun l3])
     \<and> reducer s' = reducer s \<and> currentState s' = v"
proof -
  from assms(9) obtain f where fuel: "fuel = length ls0 + Suc (Suc f)"
    by (auto simp add: le_iff_add numeral_2_eq_2)
  let ?s1 = "s\<lparr>currentState := v, heapTop := n, currentListeners := nextListeners s\<rparr>"
  have arr: "arrays ?s1 ! nextListeners s = [] @ ls0 @ [VFun l1, VFun l3]"
    using assms(1) by (simp add: listening_def)
  from notify_inert[OF assms(2) arr, of "Suc (Suc f)"]
  have skip: "notify fuel E (nextListeners s) 0 ?s1 =
      notify (Suc (Suc f)) E (nextListeners s) (length ls0)
        (?s1\<lparr>trace := trace ?s1 @ map ListenerCalled ls0\<rparr>)"
    by (simp add: fuel)
  show ?thesis
    using assms(1,3,4,7,8)
    by (simp add: dispatch_action skip listening_def assms(5,6) notify_done
        unsubscribe_def Let_def nth_append)
qed

lemma later_passes:
  assumes "\<forall>x \<in> set ls0. inert E x"
      and "body E l1 = [CallUnsubscribe k2]" "body E l3 = []"
      and "\<forall>st x n. \<exists>v n'. apply_fn E r [st, x] n = (Inr v, n')"
      and "length ls0 + 2 \<le> fuel"
  shows "list_all is_action as \<Longrightarrow> listening s (ls0 @ [VFun l1, VFun l3]) \<Longrightarrow>
         k2 < length (closures s) \<Longrightarrow> \<not> snd (closures s ! k2) \<Longrightarrow> reducer s = r \<Longrightarrow>
         \<exists>s'. dispatches fuel E as s = Some (Inr (), s') \<and>
           trace s' = trace s @
             concat (map (\<lambda>a. map ListenerCalled (ls0 @ [VFun l1, VFun l3])) as)"
proof (induction as arbitrary: s)
  case Nil
  then show ?case by simp
next
  case (Cons a as)
  from assms(4) Cons.prems(5) obtain v n where
    red: "apply_fn E (reducer s) [currentState s, a] (heapTop s) = (Inr v, n)" by blast
  from Cons.prems(1) have a: "is_action a" and as: "list_all is_action as" by simp_all
  from later_pass[OF Cons.prems(2) assms(1) Cons.prems(3,4) assms(2,3) a red assms(5)]
  obtain s1 where
    s1: "dispatch fuel E a s = Some (Inr a, s1)" "listening s1 (ls0 @ [VFun l1, VFun l3])"
      "k2 < length (closures s1)" "\<not> snd (closures s1 ! k2)"
      "trace s1 = trace s @ map ListenerCalled (ls0 @ [VFun l1, VFun l3])"
      "reducer s1 = reducer s"
    by blast
  from Cons.IH[OF as s1(2,3,4)] s1(6) Cons.prems(5) obtain s' where
    "dispatches fuel E as s1 = Some (Inr (), s')"
    "trace s' = trace s1 @
       concat (map (\<lambda>a. map ListenerCalled (ls0 @ [VFun l1, VFun l3])) as)"
    by auto
  with s1 show ?case by simp
qed

text \<open>
  C1. Take a store whose registered listeners \<open>ls0\<close> do nothing, and
  subscribe \<open>l1\<close>, \<open>l2\<close>, \<open>l3\<close> in that order, where \<open>l2\<close> is not registered
  already, the body of \<open>l1\<close> calls the \<open>unsubscribe\<close> closure of \<open>l2\<close> and
  \<open>l2\<close>, \<open>l3\<close> do nothing. Then a sequence of dispatches of valid actions,
  with a reducer that does not throw and fuel for each listener, runs to its
  end; the first dispatch calls \<open>ls0\<close>, \<open>l1\<close>, \<open>l2\<close>, \<open>l3\<close> in that order:
  the listener unsubscribed during the pass is still called in it; and every
  later dispatch calls \<open>ls0\<close>, \<open>l1\<close>, \<open>l3\<close> and not \<open>l2\<close>.
\<close>

theorem unsubscribe_during_notification:
  assumes "listening s ls0" and "\<forall>x \<in> set ls0. inert E x" and "VFun l2 \<notin> set ls0"
      and "subscribe (VFun l1) s = (Inr k1, s1)"
      and "subscribe (VFun l2) s1 = (Inr k2, s2)"
      and "subscribe (VFun l3) s2 = (Inr k3, s3)"
      and "body E l1 = [CallUnsubscribe k2]" and "body E l2 = []" and "body E l3 = []"
      and "list_all is_action (a # as)"
      and "\<forall>st x n. \<exists>v n'. apply_fn E (reducer s) [st, x] n = (Inr v, n')"
      and "length ls0 + 3 \<le> fuel"
  shows "\<exists>s'. dispatches fuel E (a # as) s3 = Some (Inr (), s') \<and>
           trace s' = trace s @
             map ListenerCalled (ls0 @ [VFun l1, VFun l2, VFun l3]) @
             concat (map (\<lambda>a. map ListenerCalled (ls0 @ [VFun l1, VFun l3])) as)"
proof -
  from assms(1) have wf: "nextListeners s < length (arrays s)"
    and ls0: "arrays s ! nextListeners s = ls0"
    by (simp_all add: listening_def)
  from subscribe_registry[OF wf, of l1] assms(4) ls0 have
    s1: "nextListeners s1 < length (arrays s1)" "arrays s1 ! nextListeners s1 = ls0 @ [VFun l1]"
      "closures s1 = closures s @ [(VFun l1, True)]" "reducer s1 = reducer s" "trace s1 = trace s"
    by auto
  from subscribe_registry[OF s1(1), of l2] assms(5) s1 have
    s2: "nextListeners s2 < length (arrays s2)"
      "arrays s2 ! nextListeners s2 = ls0 @ [VFun l1, VFun l2]"
      "closures s2 = closures s1 @ [(VFun l2, True)]" "reducer s2 = reducer s" "trace s2 = trace s"
      "k2 = length (closures s1)"
    by auto
  from subscribe_registry[OF s2(1), of l3] assms(6) s2 have
    s3: "listening s3 (ls0 @ [VFun l1, VFun l2, VFun l3])"
      "closures s3 = closures s2 @ [(VFun l3, True)]" "reducer s3 = reducer s" "trace s3 = trace s"
    by (auto simp add: listening_def)
  have k2: "k2 < length (closures s3)" "closures s3 ! k2 = (VFun l2, True)"
    using s2(3,6) s3(2) by (simp_all add: nth_append)
  from assms(11) s3(3) obtain v n where
    red: "apply_fn E (reducer s3) [currentState s3, a] (heapTop s3) = (Inr v, n)" by metis
  from assms(10) have a: "is_action a" and as: "list_all is_action as" by simp_all
  from first_pass[OF s3(1) assms(2,3) k2 assms(7,8,9) a red assms(12)] obtain s4 where
    s4: "dispatch fuel E a s3 = Some (Inr a, s4)" "listening s4 (ls0 @ [VFun l1, VFun l3])"
      "k2 < length (closures s4)" "\<not> snd (closures s4 ! k2)"
      "trace s4 = trace s3 @ map ListenerCalled (ls0 @ [VFun l1, VFun l2, VFun l3])"
      "reducer s4 = reducer s3"
    by blast
  have fuel2: "length ls0 + 2 \<le> fuel" using assms(12) by simp
  have "reducer s4 = reducer s" using s4(6) s3(3) by simp
  from later_passes[OF assms(2,7,9,11) fuel2 as s4(2,3,4) this] obtain s' where
    "dispatches fuel E as s4 = Some (Inr (), s')"
    "trace s' = trace s4 @
       concat (map (\<lambda>a. map ListenerCalled (ls0 @ [VFun l1, VFun l3])) as)"
    by blast
  with s4 s3(4) show ?thesis by simp
qed

theorem unsubscribe_during_notification_witness:
  "\<exists>s'. dispatches 4 example_env [example_action, example_action, example_action]
           (snd (subscribe (VFun 12) (snd (subscribe (VFun 11)
              (snd (subscribe (VFun 10) (snd (subscribe (VFun 13) example_store))))))))
         = Some (Inr (), s') \<and>
        trace s' =
          [ListenerCalled (VFun 13),
           ListenerCalled (VFun 10), ListenerCalled (VFun 11), ListenerCalled (VFun 12),
           ListenerCalled (VFun 13), ListenerCalled (VFun 10), ListenerCalled (VFun 12),
           ListenerCalled (VFun 13), ListenerCalled (VFun 10), ListenerCalled (VFun 12)]"
proof -
  define t0 where "t0 = snd (subscribe (VFun 13) example_store)"
  define t1 where "t1 = snd (subscribe (VFun 10) t0)"
  define t2 where "t2 = snd (subscribe (VFun 11) t1)"
  define t3 where "t3 = snd (subscribe (VFun 12) t2)"
  have t0: "t0 = example_store\<lparr>closures := [(VFun 13, True)], arrays := [[], [VFun 13]],
                               nextListeners := 1\<rparr>"
    by (simp add: t0_def subscribe_def ensureCanMutateNextListeners_def Let_def example_store_def)
  have h1: "listening t0 [VFun 13]"
    unfolding t0 by (simp add: listening_def)
  have h2: "\<forall>x \<in> set [VFun 13]. inert example_env x" by (simp add: example_env_def)
  have h3: "VFun 11 \<notin> set [VFun 13]" by simp
  have h4: "subscribe (VFun 10) t0 = (Inr 1, t1)"
    unfolding t1_def t0 by (simp add: subscribe_def Let_def example_store_def)
  have h5: "subscribe (VFun 11) t1 = (Inr 2, t2)"
    unfolding t2_def t1_def t0
    by (simp add: subscribe_def ensureCanMutateNextListeners_def Let_def example_store_def)
  have h6: "subscribe (VFun 12) t2 = (Inr 3, t3)"
    unfolding t3_def t2_def t1_def t0
    by (simp add: subscribe_def ensureCanMutateNextListeners_def Let_def example_store_def)
  have h7: "body example_env 10 = [CallUnsubscribe 2]" by (simp add: example_env_def)
  have h8: "body example_env 11 = []" by (simp add: example_env_def)
  have h9: "body example_env 12 = []" by (simp add: example_env_def)
  have h10: "list_all is_action [example_action, example_action, example_action]"
    by (simp add: example_action_def)
  have h11: "\<forall>st x n. \<exists>v n'. apply_fn example_env (reducer t0) [st, x] n = (Inr v, n')"
    unfolding t0 by (simp add: example_defs)
  have h12: "length [VFun 13] + 3 \<le> (4::nat)" by simp
  have tr: "trace t0 = []" unfolding t0 by (simp add: example_store_def)
  from unsubscribe_during_notification[OF h1 h2 h3 h4 h5 h6 h7 h8 h9 h10 h11 h12]
  have "\<exists>s'. dispatches 4 example_env [example_action, example_action, example_action] t3
              = Some (Inr (), s') \<and>
        trace s' =
          [ListenerCalled (VFun 13),
           ListenerCalled (VFun 10), ListenerCalled (VFun 11), ListenerCalled (VFun 12),
           ListenerCalled (VFun 13), ListenerCalled (VFun 10), ListenerCalled (VFun 12),
           ListenerCalled (VFun 13), ListenerCalled (VFun 10), ListenerCalled (VFun 12)]"
    unfolding tr by (simp del: dispatches.simps)
  then show ?thesis
    unfolding t3_def t2_def t1_def t0_def .
qed

section \<open>A pass over listeners that only edit the registry\<close>

lemma subscribe_snapshot:
  "snapshot l xs s \<Longrightarrow> typeof v = ''function'' \<Longrightarrow>
   \<exists>k s'. subscribe v s = (Inr k, s') \<and> snapshot l xs s' \<and> trace s' = trace s
      \<and> currentState s' = currentState s \<and> reducer s' = reducer s \<and> heapTop s' = heapTop s"
  by (auto simp add: snapshot_def subscribe_def ensureCanMutateNextListeners_def Let_def nth_append)

lemma unsubscribe_snapshot:
  "snapshot l xs s \<Longrightarrow>
   snapshot l xs (unsubscribe k s) \<and> trace (unsubscribe k s) = trace s
      \<and> currentState (unsubscribe k s) = currentState s \<and> reducer (unsubscribe k s) = reducer s
      \<and> heapTop (unsubscribe k s) = heapTop s"
  by (auto simp add: snapshot_def unsubscribe_def ensureCanMutateNextListeners_def Let_def nth_append)

lemma run_body_registry:
  "list_all registry_call cmds \<Longrightarrow> snapshot l xs s \<Longrightarrow>
   \<exists>s'. run_body fuel E cmds s = Some (Inr (), s') \<and> snapshot l xs s' \<and> trace s' = trace s
      \<and> currentState s' = currentState s \<and> reducer s' = reducer s \<and> heapTop s' = heapTop s"
proof (induction cmds arbitrary: s)
  case Nil
  then show ?case by simp
next
  case (Cons c cmds)
  show ?case
  proof (cases c)
    case (CallSubscribe v)
    with Cons.prems have fn: "typeof v = ''function''" by simp
    from subscribe_snapshot[OF Cons.prems(2) fn] obtain k s1 where
      s1: "subscribe v s = (Inr k, s1)" "snapshot l xs s1" "trace s1 = trace s"
        "currentState s1 = currentState s" "reducer s1 = reducer s" "heapTop s1 = heapTop s"
      by blast
    from Cons.IH[OF _ s1(2)] Cons.prems(1) obtain s' where
      "run_body fuel E cmds s1 = Some (Inr (), s')" "snapshot l xs s'" "trace s' = trace s1"
        "currentState s' = currentState s1" "reducer s' = reducer s1" "heapTop s' = heapTop s1"
      by auto
    with s1 CallSubscribe show ?thesis by simp
  next
    case (CallUnsubscribe k)
    from unsubscribe_snapshot[OF Cons.prems(2), of k] have
      u: "snapshot l xs (unsubscribe k s)" "trace (unsubscribe k s) = trace s"
        "currentState (unsubscribe k s) = currentState s" "reducer (unsubscribe k s) = reducer s"
        "heapTop (unsubscribe k s) = heapTop s"
      by simp_all
    from Cons.IH[OF _ u(1)] Cons.prems(1) obtain s' where
      "run_body fuel E cmds (unsubscribe k s) = Some (Inr (), s')" "snapshot l xs s'"
        "trace s' = trace (unsubscribe k s)"
        "currentState s' = currentState (unsubscribe k s)" "reducer s' = reducer (unsubscribe k s)"
        "heapTop s' = heapTop (unsubscribe k s)"
      by auto
    with u CallUnsubscribe show ?thesis by simp
  next
    case (CallDispatch a)
    with Cons.prems show ?thesis by simp
  next
    case (CallThrow e)
    with Cons.prems show ?thesis by simp
  qed
qed

text \<open>
  Whatever such listeners do to the registry, the loop calls exactly the
  listeners of the array it captured, in order.
\<close>

lemma notify_registry:
  "snapshot l xs s \<Longrightarrow> \<forall>x \<in> set (drop i xs). registry_only E x \<Longrightarrow> length xs - i \<le> fuel \<Longrightarrow>
   \<exists>s'. notify fuel E l i s = Some (Inr (), s') \<and> snapshot l xs s'
      \<and> trace s' = trace s @ map ListenerCalled (drop i xs)
      \<and> currentState s' = currentState s \<and> reducer s' = reducer s \<and> heapTop s' = heapTop s"
proof (induction fuel arbitrary: i s)
  case 0
  then show ?case by (simp add: snapshot_def)
next
  case (Suc fuel)
  show ?case
  proof (cases "i < length xs")
    case False
    with Suc.prems(1) show ?thesis by (simp add: snapshot_def)
  next
    case True
    then have d: "drop i xs = xs ! i # drop (Suc i) xs"
      by (simp add: Cons_nth_drop_Suc)
    with Suc.prems(2) have ro: "registry_only E (xs ! i)" by simp
    then obtain f where f: "xs ! i = VFun f" "list_all registry_call (body E f)"
      by (cases "xs ! i") simp_all
    let ?s1 = "s\<lparr>trace := trace s @ [ListenerCalled (xs ! i)]\<rparr>"
    have snap1: "snapshot l xs ?s1" using Suc.prems(1) by (simp add: snapshot_def)
    from run_body_registry[OF f(2) snap1, of fuel E] obtain s2 where
      s2: "run_body fuel E (body E f) ?s1 = Some (Inr (), s2)" "snapshot l xs s2"
        "trace s2 = trace ?s1" "currentState s2 = currentState ?s1" "reducer s2 = reducer ?s1"
        "heapTop s2 = heapTop ?s1"
      by blast
    have rest: "\<forall>x \<in> set (drop (Suc i) xs). registry_only E x"
      using Suc.prems(2) d by simp
    have len: "length xs - Suc i \<le> fuel" using Suc.prems(3) by simp
    from Suc.IH[OF s2(2) rest len] obtain s' where
      s': "notify fuel E l (Suc i) s2 = Some (Inr (), s')" "snapshot l xs s'"
        "trace s' = trace s2 @ map ListenerCalled (drop (Suc i) xs)"
        "currentState s' = currentState s2" "reducer s' = reducer s2" "heapTop s' = heapTop s2"
      by blast
    have arr: "arrays s ! l = xs" using Suc.prems(1) by (simp add: snapshot_def)
    show ?thesis
      using True s2 s' f(1) arr d by simp
  qed
qed

lemma dispatch_registry:
  assumes "is_action action"
      and "apply_fn E (reducer s) [currentState s, action] (heapTop s) = (Inr v, n)"
      and "nextListeners s < length (arrays s)"
      and "\<forall>x \<in> set (arrays s ! nextListeners s). registry_only E x"
      and "length (arrays s ! nextListeners s) \<le> fuel"
  shows "\<exists>s'. dispatch fuel E action s = Some (Inr action, s')
      \<and> trace s' = trace s @ map ListenerCalled (arrays s ! nextListeners s)
      \<and> currentState s' = v \<and> reducer s' = reducer s \<and> heapTop s' = n
      \<and> nextListeners s' < length (arrays s')"
proof -
  let ?s1 = "s\<lparr>currentState := v, heapTop := n, currentListeners := nextListeners s\<rparr>"
  have snap: "snapshot (nextListeners s) (arrays s ! nextListeners s) ?s1"
    using assms(3) by (simp add: snapshot_def)
  from notify_registry[OF snap, of 0 E fuel] assms(4,5) obtain s' where
    "notify fuel E (nextListeners s) 0 ?s1 = Some (Inr (), s')"
    "snapshot (nextListeners s) (arrays s ! nextListeners s) s'"
    "trace s' = trace ?s1 @ map ListenerCalled (arrays s ! nextListeners s)"
    "currentState s' = currentState ?s1" "reducer s' = reducer ?s1" "heapTop s' = heapTop ?s1"
    by auto
  then show ?thesis
    using assms(1,2) by (simp add: dispatch_action snapshot_def)
qed

section \<open>The middleware enhancer: what a wrapped dispatch does\<close>

lemma enhanced_dispatch_foldr:
  "enhanced_dispatch k middlewares store action s =
     foldr (\<lambda>middleware next. middleware
              \<lparr>mw_getState = api_getState store,
               mw_dispatch = (case k of 0 \<Rightarrow> (\<lambda>action s. None)
                              | Suc j \<Rightarrow> enhanced_dispatch j middlewares store)\<rparr> next)
           middlewares (api_dispatch store) action s"
  by (cases k) (simp_all add: compose_foldr foldr_map comp_def)

lemma createStore_plain:
  assumes "typeof preloadedState \<noteq> ''function''"
      and "createStore depth fuel E enhancers reducer' preloadedState VUndefined n
             = Some (Inr (store, s0))"
  shows "store = store_of fuel E"
  using assms
  by (cases depth)
     (auto simp add: createStore_body_def Let_def
           split: if_splits option.splits sum.splits prod.splits)

text \<open>
  The store that \<open>createStore(reducer, preloadedState, applyMiddleware(...))\<close>
  and \<open>createStore(reducer, applyMiddleware(...))\<close> return: the base store with
  \<open>dispatch\<close> replaced by the composed chain.
\<close>

lemma createStore_applyMiddleware:
  assumes "enhancers g = applyMiddleware k middlewares"
      and "createStore depth fuel E enhancers reducer' preloadedState enhancer n
             = Some (Inr (store, s0))"
      and "enhancer = VFun g \<and> typeof preloadedState \<noteq> ''function'' \<or>
           preloadedState = VFun g \<and> enhancer = VUndefined"
  shows "store = (store_of fuel E)
                   \<lparr>api_dispatch := enhanced_dispatch k middlewares (store_of fuel E)\<rparr>"
proof (cases depth)
  case 0
  with assms show ?thesis
    by (auto simp add: createStore_body_def Let_def applyMiddleware_def split: if_splits)
next
  case (Suc d)
  let ?p = "if enhancer = VUndefined then VUndefined
            else if preloadedState = VUndefined then VObj n [] else preloadedState"
  let ?n = "if preloadedState = VUndefined then n + 1 else n"
  from assms Suc have
    "applyMiddleware k middlewares (createStore d fuel E enhancers) reducer' ?p VUndefined ?n
       = Some (Inr (store, s0))"
    by (auto simp add: createStore_body_def Let_def split: if_splits)
  then obtain base where
    base: "createStore d fuel E enhancers reducer' ?p VUndefined ?n = Some (Inr (base, s0))"
      and st: "store = base\<lparr>api_dispatch := enhanced_dispatch k middlewares base\<rparr>"
    by (auto simp add: applyMiddleware_def split: option.splits sum.splits prod.splits)
  have "typeof ?p \<noteq> ''function''"
    using assms(3) by auto
  from createStore_plain[OF this base] have "base = store_of fuel E" .
  with st show ?thesis by simp
qed

text \<open>A value that \<open>dispatch\<close> returns is its argument, whatever the listeners did.\<close>

lemma dispatch_value: "dispatch fuel E action s = Some (Inr r, s') \<Longrightarrow> r = action"
  by (auto simp add: dispatch.simps split: if_splits sum.splits prod.splits option.splits)

lemma logging_stack_value:
  assumes "\<forall>m \<in> set middlewares. \<exists>before after. m = loggingMiddleware before after"
  shows "foldr (\<lambda>middleware next. middleware api next) middlewares (dispatch fuel E) action s
           = Some (Inr r, s') \<Longrightarrow> r = action"
  using assms
proof (induction middlewares arbitrary: s s')
  case Nil
  then show ?case by (simp add: dispatch_value)
next
  case (Cons m ms)
  then obtain before after where m: "m = loggingMiddleware before after" by auto
  let ?s1 = "console_log [VStr before, mw_getState api s] s"
  from Cons.prems(1) obtain s2 where
    "foldr (\<lambda>middleware next. middleware api next) ms (dispatch fuel E) action ?s1
       = Some (Inr r, s2)"
    by (auto simp add: m loggingMiddleware_def Let_def split: option.splits sum.splits prod.splits)
  from Cons.IH[OF this] Cons.prems(2) show ?case by simp
qed

lemma logging_stack:
  assumes "\<forall>m \<in> set middlewares. \<exists>before after. m = loggingMiddleware before after"
      and "is_action action"
      and "apply_fn E (reducer s) [currentState s, action] (heapTop s) = (Inr v, n)"
      and "nextListeners s < length (arrays s)"
      and "\<forall>x \<in> set (arrays s ! nextListeners s). registry_only E x"
      and "length (arrays s ! nextListeners s) \<le> fuel"
  shows "\<exists>s'. foldr (\<lambda>middleware next. middleware api next) middlewares (dispatch fuel E) action s
            = Some (Inr action, s')"
  using assms
proof (induction middlewares arbitrary: s)
  case Nil
  from dispatch_registry[OF Nil(2-6)] show ?case by auto
next
  case (Cons m ms)
  then obtain before after where m: "m = loggingMiddleware before after" by auto
  let ?s1 = "console_log [VStr before, mw_getState api s] s"
  have "\<exists>s'. foldr (\<lambda>middleware next. middleware api next) ms (dispatch fuel E) action ?s1
            = Some (Inr action, s')"
    using Cons.prems by (intro Cons.IH) (simp_all add: console_log_def)
  then show ?case
    by (auto simp add: m loggingMiddleware_def Let_def)
qed

text \<open>
  C6. Take a store built by \<open>createStore\<close>, either with no enhancer or with
  \<open>applyMiddleware\<close> of any number of middlewares of the standard shape (passed
  as the third or as the second argument). In any state of it where the reducer
  returns on the action and the registered listeners only edit the registry
  (with fuel for each of them), \<open>dispatch\<close> of a valid action returns, and
  returns that action itself. And in every state, with any listeners, a value
  that \<open>dispatch\<close> returns is the one it was given.
\<close>

theorem dispatch_returns_action:
  assumes "is_action action"
      and "apply_fn E (reducer s) [currentState s, action] (heapTop s) = (Inr v, n)"
      and "nextListeners s < length (arrays s)"
      and "\<forall>x \<in> set (arrays s ! nextListeners s). registry_only E x"
      and "length (arrays s ! nextListeners s) \<le> fuel"
      and "\<forall>m \<in> set middlewares. \<exists>before after. m = loggingMiddleware before after"
      and "createStore depth fuel E enhancers reducer' preloadedState enhancer n0
             = Some (Inr (store, s0))"
      and "enhancer = VUndefined \<and> typeof preloadedState \<noteq> ''function'' \<or>
           (\<exists>g. enhancers g = applyMiddleware k middlewares \<and>
                (enhancer = VFun g \<and> typeof preloadedState \<noteq> ''function'' \<or>
                 preloadedState = VFun g \<and> enhancer = VUndefined))"
  shows "(\<exists>s'. api_dispatch store action s = Some (Inr action, s')) \<and>
         (\<forall>a t r t'. api_dispatch store a t = Some (Inr r, t') \<longrightarrow> r = a)"
proof -
  from assms(8) show ?thesis
  proof
    assume plain: "enhancer = VUndefined \<and> typeof preloadedState \<noteq> ''function''"
    with createStore_plain assms(7) have "store = store_of fuel E" by blast
    then have "api_dispatch store = dispatch fuel E" by (simp add: store_of_def)
    with dispatch_registry[OF assms(1-5)] dispatch_value show ?thesis by auto
  next
    assume "\<exists>g. enhancers g = applyMiddleware k middlewares \<and>
                (enhancer = VFun g \<and> typeof preloadedState \<noteq> ''function'' \<or>
                 preloadedState = VFun g \<and> enhancer = VUndefined)"
    then obtain g where g: "enhancers g = applyMiddleware k middlewares"
      "enhancer = VFun g \<and> typeof preloadedState \<noteq> ''function'' \<or>
       preloadedState = VFun g \<and> enhancer = VUndefined"
      by blast
    from createStore_applyMiddleware[OF g(1) assms(7) g(2)]
    have "api_dispatch store = enhanced_dispatch k middlewares (store_of fuel E)" by simp
    moreover have "api_dispatch (store_of fuel E) = dispatch fuel E" by (simp add: store_of_def)
    ultimately show ?thesis
      using logging_stack[OF assms(6) assms(1-5)] logging_stack_value[OF assms(6)]
      by (simp add: enhanced_dispatch_foldr)
  qed
qed

theorem dispatch_returns_action_witness:
  "(\<exists>s'. api_dispatch (store_of 1 example_env) example_action
            (snd (subscribe (VFun 10) example_store)) = Some (Inr example_action, s')) \<and>
   (\<exists>s'. api_dispatch
            ((store_of 1 example_env)
               \<lparr>api_dispatch := enhanced_dispatch 0 example_middlewares (store_of 1 example_env)\<rparr>)
            example_action (snd (subscribe (VFun 10) example_store))
          = Some (Inr example_action, s'))"
proof -
  let ?s = "snd (subscribe (VFun 10) example_store)"
  have s: "?s = example_store\<lparr>closures := [(VFun 10, True)], arrays := [[], [VFun 10]],
                                nextListeners := 1\<rparr>"
    by (simp add: subscribe_def ensureCanMutateNextListeners_def Let_def example_store_def)
  have h1: "is_action example_action" by (simp add: example_action_def)
  have h2: "apply_fn example_env (reducer ?s) [currentState ?s, example_action] (heapTop ?s)
              = (Inr (VObj 0 []), 2)"
    unfolding s by (simp add: example_defs)
  have h3: "nextListeners ?s < length (arrays ?s)"
    unfolding s by simp
  have h4: "\<forall>x \<in> set (arrays ?s ! nextListeners ?s). registry_only example_env x"
    unfolding s by (simp add: example_defs)
  have h5: "length (arrays ?s ! nextListeners ?s) \<le> 1"
    unfolding s by simp
  have h6: "\<forall>m \<in> set example_middlewares. \<exists>before after. m = loggingMiddleware before after"
    by (auto simp add: example_middlewares_def)
  have h7: "createStore 1 1 example_env example_enhancers (VFun 0) VUndefined VUndefined 0 =
      Some (Inr (store_of 1 example_env, example_store))"
    by (simp add: createStore_body_def Let_def dispatch_action notify_done example_defs)
  have h7': "createStore 1 1 example_env example_enhancers (VFun 0) (VFun 20) VUndefined 0 =
      Some (Inr ((store_of 1 example_env)
              \<lparr>api_dispatch := enhanced_dispatch 0 example_middlewares (store_of 1 example_env)\<rparr>,
            example_store))"
    by (simp add: createStore_body_def Let_def dispatch_action notify_done
          applyMiddleware_def example_defs example_enhancers_def)
  have h8: "VUndefined = VUndefined \<and> typeof VUndefined \<noteq> ''function'' \<or>
      (\<exists>g. example_enhancers g = applyMiddleware 0 example_middlewares \<and>
           (VUndefined = VFun g \<and> typeof VUndefined \<noteq> ''function'' \<or>
            VUndefined = VFun g \<and> VUndefined = VUndefined))"
    by simp
  have h8': "VUndefined = VUndefined \<and> typeof (VFun 20) \<noteq> ''function'' \<or>
      (\<exists>g. example_enhancers g = applyMiddleware 0 example_middlewares \<and>
           (VUndefined = VFun g \<and> typeof (VFun 20) \<noteq> ''function'' \<or>
            VFun 20 = VFun g \<and> VUndefined = VUndefined))"
    by (simp add: example_enhancers_def)
  from dispatch_returns_action[OF h1 h2 h3 h4 h5 h6 h7 h8]
    dispatch_returns_action[OF h1 h2 h3 h4 h5 h6 h7' h8']
  show ?thesis by blast
qed

text \<open>
  C7. For a store built with \<open>applyMiddleware(mw1, mw2)\<close>, both of the standard
  shape, a dispatch runs the code of \<open>mw1\<close> before the call, then that of
  \<open>mw2\<close>, then the dispatch of the base store, then the code of \<open>mw2\<close> after
  the call, then that of \<open>mw1\<close>; a throw of the base dispatch passes through
  both.
\<close>

theorem middleware_order:
  assumes "enhancers g = applyMiddleware k [loggingMiddleware b1 a1, loggingMiddleware b2 a2]"
      and "createStore depth fuel E enhancers reducer' preloadedState enhancer n0
             = Some (Inr (store, s0))"
      and "enhancer = VFun g \<and> typeof preloadedState \<noteq> ''function'' \<or>
           preloadedState = VFun g \<and> enhancer = VUndefined"
  shows "api_dispatch store action s =
           (case dispatch fuel E action
                   (console_log [VStr b2, getState s] (console_log [VStr b1, getState s] s)) of
              None \<Rightarrow> None
            | Some (Inl e, s') \<Rightarrow> Some (Inl e, s')
            | Some (Inr r, s') \<Rightarrow>
                Some (Inr r, console_log [VStr a1, getState s']
                               (console_log [VStr a2, getState s'] s')))"
proof -
  from createStore_applyMiddleware[OF assms]
  have "api_dispatch store =
          enhanced_dispatch k [loggingMiddleware b1 a1, loggingMiddleware b2 a2] (store_of fuel E)"
    by simp
  then show ?thesis
    by (simp add: enhanced_dispatch_foldr loggingMiddleware_def Let_def store_of_def
          getState_def console_log_def split: option.splits sum.splits prod.splits)
qed

theorem middleware_order_witness:
  "\<exists>s'. api_dispatch
           ((store_of 1 example_env)
              \<lparr>api_dispatch := enhanced_dispatch 0 example_middlewares (store_of 1 example_env)\<rparr>)
           example_action (snd (subscribe (VFun 11) example_store))
         = Some (Inr example_action, s') \<and>
        trace s' =
          [ConsoleLog [VStr ''before 1'', VObj 0 []], ConsoleLog [VStr ''before 2'', VObj 0 []],
           ListenerCalled (VFun 11),
           ConsoleLog [VStr ''after 2'', VObj 0 []], ConsoleLog [VStr ''after 1'', VObj 0 []]]"
proof -
  have h1: "example_enhancers 20 =
      applyMiddleware 0
        [loggingMiddleware ''before 1'' ''after 1'', loggingMiddleware ''before 2'' ''after 2'']"
    by (simp add: example_enhancers_def example_middlewares_def)
  have h2: "createStore 1 1 example_env example_enhancers (VFun 0) VUndefined (VFun 20) 0 =
      Some (Inr ((store_of 1 example_env)
              \<lparr>api_dispatch := enhanced_dispatch 0 example_middlewares (store_of 1 example_env)\<rparr>,
            example_store))"
    by (simp add: createStore_body_def Let_def dispatch_action notify_done h1
          applyMiddleware_def example_defs example_middlewares_def)
  have h3: "VFun 20 = VFun 20 \<and> typeof VUndefined \<noteq> ''function'' \<or>
            VUndefined = VFun 20 \<and> VFun 20 = VUndefined"
    by simp
  from middleware_order[OF h1 h2 h3, of example_action "snd (subscribe (VFun 11) example_store)"]
  show ?thesis
    by (simp add: dispatch_action subscribe_def ensureCanMutateNextListeners_def Let_def
          console_log_def getState_def example_defs)
qed

section \<open>The unsubscribe closure\<close>

lemma spent_le_refl: "spent_le s s"
  by (simp add: spent_le_def)

lemma spent_le_trans: "spent_le s s1 \<Longrightarrow> spent_le s1 s2 \<Longrightarrow> spent_le s s2"
  by (auto simp add: spent_le_def)

lemma spent_le_closures: "closures s' = closures s \<Longrightarrow> spent_le s s'"
  by (simp add: spent_le_def)

lemma spent_le_subscribe: "subscribe l s = (r, s') \<Longrightarrow> spent_le s s'"
  by (auto simp add: subscribe_def ensureCanMutateNextListeners_def Let_def spent_le_def nth_append
        split: if_splits)

lemma spent_le_unsubscribe: "spent_le s (unsubscribe k s)"
  by (auto simp add: unsubscribe_def ensureCanMutateNextListeners_def Let_def spent_le_def
        nth_list_update)

text \<open>
  No dispatch, whatever its listeners do, sets an \<open>isSubscribed\<close> back to true:
  by induction over the calls of \<open>dispatch\<close>, of the loop and of the bodies.
\<close>

lemma spent_le_dispatch:
  "dispatch fuel E a s = Some (r, s') \<Longrightarrow> spent_le s s'"
  "notify fuel E l i s2 = Some (r2, s2') \<Longrightarrow> spent_le s2 s2'"
  "run_body fuel E cmds s3 = Some (r3, s3') \<Longrightarrow> spent_le s3 s3'"
proof (induction fuel E a s and fuel E l i s2 and fuel E cmds s3
       arbitrary: r s' and r2 s2' and r3 s3' rule: dispatch_notify_run_body.induct)
  case (1 fuel E action s)
  show ?case
  proof (cases "is_action action")
    case False
    then have "\<exists>e. dispatch fuel E action s = Some (Inl e, s)"
      by (cases action) (auto simp add: dispatch.simps split: option.splits)
    with "1.prems" show ?thesis by (auto simp add: spent_le_refl)
  next
    case True
    then obtain ad fs t where act: "action = VObj ad fs" "map_of fs ''type'' = Some t"
      "typeof t \<noteq> ''undefined''"
      by (cases action) (auto split: option.splits)
    show ?thesis
    proof (cases "apply_fn E (reducer s) [currentState s, action] (heapTop s)")
      case (Pair x n)
      show ?thesis
      proof (cases x)
        case (Inl e)
        with Pair True "1.prems" show ?thesis
          by (auto simp add: dispatch_action spent_le_closures)
      next
        case (Inr v)
        let ?s1 = "s\<lparr>currentState := v, heapTop := n, currentListeners := nextListeners s\<rparr>"
        from Pair Inr True "1.prems" obtain r1 where
          n: "notify fuel E (nextListeners s) 0 ?s1 = Some (r1, s')"
          by (auto simp add: dispatch_action split: option.splits sum.splits)
        have c1: "\<not> (\<not> truthy action \<or> typeof action \<noteq> ''object'')" using act by simp
        have c2: "get_prop action ''type'' = Inr t" using act by simp
        have c4: "(x, n) = apply_fn E (reducer s) [currentState s, action] (heapTop s)"
          using Pair by simp
        have "spent_le ?s1 s'"
          using "1.IH"[OF c1 c2 act(3) c4 Inr n] .
        moreover have "spent_le s ?s1" by (simp add: spent_le_def)
        ultimately show ?thesis by (rule spent_le_trans[rotated])
      qed
    qed
  qed
next
  case (2 E listeners i s)
  then show ?case by (auto simp add: spent_le_refl split: if_splits)
next
  case (3 fuel E listeners i s)
  show ?case
  proof (cases "i < length (arrays s ! listeners)")
    case False
    with "3.prems" show ?thesis by (simp add: spent_le_refl)
  next
    case True
    let ?x = "arrays s ! listeners ! i"
    let ?s1 = "s\<lparr>trace := trace s @ [ListenerCalled ?x]\<rparr>"
    let ?call = "case ?x of VFun f \<Rightarrow> run_body fuel E (body E f) ?s1
                 | _ \<Rightarrow> Some (Inl TypeError, ?s1)"
    from "3.prems" True obtain rb sb where call: "?call = Some (rb, sb)"
      by (auto simp add: Let_def split: option.splits)
    have a: "spent_le s ?s1" by (simp add: spent_le_def)
    have b: "spent_le ?s1 sb"
    proof (cases ?x)
      case (VFun f)
      with call have "run_body fuel E (body E f) ?s1 = Some (rb, sb)" by simp
      from "3.IH"(1)[OF True refl refl VFun this] show ?thesis .
    qed (use call in \<open>auto simp add: spent_le_refl\<close>)
    show ?thesis
    proof (cases rb)
      case (Inl e)
      with "3.prems" True call have "s2' = sb" by (simp add: Let_def)
      with a b show ?thesis by (auto intro: spent_le_trans)
    next
      case (Inr u)
      with "3.prems" True call have n: "notify fuel E listeners (i + 1) sb = Some (r2, s2')"
        by (simp add: Let_def)
      have "(rb, sb) = (rb, sb)" by simp
      from "3.IH"(2)[OF True refl refl call this Inr n] have "spent_le sb s2'" .
      with a b show ?thesis by (auto intro: spent_le_trans)
    qed
  qed
next
  case (4 fuel E s)
  then show ?case by (simp add: spent_le_refl)
next
  case (5 fuel E c cs s)
  show ?case
  proof (cases c)
    case (CallDispatch a)
    from "5.prems" CallDispatch obtain rd sd where d: "dispatch fuel E a s = Some (rd, sd)"
      by (auto split: option.splits)
    from "5.IH"(1)[OF CallDispatch d] have a1: "spent_le s sd" .
    show ?thesis
    proof (cases rd)
      case (Inl e)
      with "5.prems" CallDispatch d have "s3' = sd" by simp
      with a1 show ?thesis by simp
    next
      case (Inr v)
      with "5.prems" CallDispatch d have "run_body fuel E cs sd = Some (r3, s3')" by simp
      from "5.IH"(2)[OF CallDispatch d refl Inr this] a1 show ?thesis
        by (auto intro: spent_le_trans)
    qed
  next
    case (CallSubscribe l)
    obtain rs ss where sub: "subscribe l s = (rs, ss)" by (cases "subscribe l s")
    from spent_le_subscribe[OF sub] have a1: "spent_le s ss" .
    show ?thesis
    proof (cases rs)
      case (Inl e)
      with "5.prems" CallSubscribe sub have "s3' = ss" by simp
      with a1 show ?thesis by simp
    next
      case (Inr k)
      with "5.prems" CallSubscribe sub have "run_body fuel E cs ss = Some (r3, s3')" by simp
      from "5.IH"(3)[OF CallSubscribe sub[symmetric] Inr this] a1 show ?thesis
        by (auto intro: spent_le_trans)
    qed
  next
    case (CallUnsubscribe k)
    with "5.prems" have "run_body fuel E cs (unsubscribe k s) = Some (r3, s3')" by simp
    from "5.IH"(4)[OF CallUnsubscribe this] spent_le_unsubscribe[of s k] show ?thesis
      by (auto intro: spent_le_trans)
  next
    case (CallThrow e)
    with "5.prems" show ?thesis by (simp add: spent_le_refl)
  qed
qed

lemma spent_le_replaceReducer:
  assumes "replaceReducer fuel E f s = Some (r, s')"
  shows "spent_le s s'"
proof (cases "typeof f = ''function''")
  case False
  with assms show ?thesis by (simp add: replaceReducer_def spent_le_refl)
next
  case True
  let ?s1 = "s\<lparr>reducer := f, heapTop := heapTop s + 1\<rparr>"
  from assms True obtain rd where
    "dispatch fuel E (VObj (heapTop s) [(''type'', VStr ''@@redux_init'')]) ?s1 = Some (rd, s')"
    by (auto simp add: replaceReducer_def Let_def split: option.splits sum.splits)
  from spent_le_dispatch(1)[OF this] have "spent_le ?s1 s'" .
  moreover have "spent_le s ?s1" by (simp add: spent_le_def)
  ultimately show ?thesis by (rule spent_le_trans[rotated])
qed

lemma later_spent_le: "later E s s' \<Longrightarrow> spent_le s s'"
proof (induction rule: later.induct)
  case (later_now s)
  show ?case by (rule spent_le_refl)
next
  case (later_subscribe s s1 l r s2)
  from later_subscribe.IH spent_le_subscribe[OF later_subscribe.hyps(2)] show ?case
    by (rule spent_le_trans)
next
  case (later_unsubscribe s s1 j)
  from later_unsubscribe.IH spent_le_unsubscribe show ?case
    by (rule spent_le_trans)
next
  case (later_dispatch s s1 fuel a r' s2)
  from later_dispatch.IH spent_le_dispatch(1)[OF later_dispatch.hyps(2)] show ?case
    by (rule spent_le_trans)
next
  case (later_replaceReducer s s1 fuel f r'' s2)
  from later_replaceReducer.IH spent_le_replaceReducer[OF later_replaceReducer.hyps(2)]
  show ?case by (rule spent_le_trans)
qed

lemma unsubscribe_spends:
  "k < length (closures s) \<Longrightarrow>
   k < length (closures (unsubscribe k s)) \<and> \<not> snd (closures (unsubscribe k s) ! k)"
  by (auto simp add: unsubscribe_def ensureCanMutateNextListeners_def Let_def)

lemma unsubscribe_spent:
  "k < length (closures s) \<Longrightarrow> \<not> snd (closures s ! k) \<Longrightarrow> unsubscribe k s = s"
  by (simp add: unsubscribe_def)

text \<open>
  C9. Let \<open>subscribe(listener)\<close> return the closure \<open>k\<close>. Once the closure has
  been called, at whatever moment after the subscription, any later call of it,
  whatever the store has done in between, leaves the store as it is: the
  registry is the one the store had before the call, and nothing is thrown (a
  call of the closure has no other outcome than a store).
\<close>

theorem unsubscribe_twice_is_noop:
  assumes "subscribe listener s = (Inr k, s1)"
      and "later E s1 s2"
      and "later E (unsubscribe k s2) s3"
  shows "unsubscribe k s3 = s3"
proof -
  from assms(1) have "k < length (closures s1)"
    by (auto simp add: subscribe_def ensureCanMutateNextListeners_def Let_def split: if_splits)
  with later_spent_le[OF assms(2)] have "k < length (closures s2)"
    by (simp add: spent_le_def)
  from unsubscribe_spends[OF this] later_spent_le[OF assms(3)]
  have "k < length (closures s3)" "\<not> snd (closures s3 ! k)"
    by (auto simp add: spent_le_def)
  then show ?thesis by (rule unsubscribe_spent)
qed

theorem unsubscribe_twice_is_noop_witness:
  "subscribe (VFun 11) example_store =
     (Inr 0, example_store\<lparr>closures := [(VFun 11, True)], arrays := [[], [VFun 11]],
                            nextListeners := 1\<rparr>) \<and>
   unsubscribe 0
     (example_store\<lparr>closures := [(VFun 11, False)], arrays := [[], [VFun 11], []],
                     nextListeners := 2, currentListeners := 1,
                     trace := [ListenerCalled (VFun 11)]\<rparr>) =
     example_store\<lparr>closures := [(VFun 11, False)], arrays := [[], [VFun 11], []],
                    nextListeners := 2, currentListeners := 1,
                    trace := [ListenerCalled (VFun 11)]\<rparr>"
proof -
  let ?s1 = "example_store\<lparr>closures := [(VFun 11, True)], arrays := [[], [VFun 11]],
                           nextListeners := 1\<rparr>"
  let ?s2 = "?s1\<lparr>currentListeners := 1, trace := [ListenerCalled (VFun 11)]\<rparr>"
  let ?s3 = "example_store\<lparr>closures := [(VFun 11, False)], arrays := [[], [VFun 11], []],
                           nextListeners := 2, currentListeners := 1,
                           trace := [ListenerCalled (VFun 11)]\<rparr>"
  have h1: "subscribe (VFun 11) example_store = (Inr 0, ?s1)"
    by (simp add: subscribe_def ensureCanMutateNextListeners_def Let_def example_store_def)
  have d: "dispatch 1 example_env example_action ?s1 = Some (Inr example_action, ?s2)"
    by (simp add: dispatch_action notify_done Let_def example_defs)
  have h2: "later example_env ?s1 ?s2"
    by (rule later_dispatch[OF later_now d])
  have u: "unsubscribe 0 ?s2 = ?s3"
    by (simp add: unsubscribe_def ensureCanMutateNextListeners_def Let_def splice_def
          example_store_def)
  have h3: "later example_env (unsubscribe 0 ?s2) ?s3"
    unfolding u by (rule later_now)
  from unsubscribe_twice_is_noop[OF h1 h2 h3] h1 show ?thesis by (rule conjI[rotated])
qed

end
